theory Spec2Isabelle
  imports Complex_Main "HOL-Library.Sublist"
begin

section \<open>Python values and string primitives\<close>

text \<open>
  The recommender works on Python \<open>str\<close> values. They are modelled as \<open>string\<close>, and the
  character classes and case maps below are those of Python on the ASCII range
  (\<open>str.isspace\<close>, \<open>str.lower\<close>, \<open>str.upper\<close>); a character outside that range is
  left unchanged and is neither white space nor a letter.
\<close>

datatype pyval = Str string | NoneVal | IntVal int | BoolVal bool

datatype py_error = KeyError string

definition isspace :: "char \<Rightarrow> bool" where
  "isspace c = (let n = (of_char c :: int) in (9 \<le> n \<and> n \<le> 13) \<or> (28 \<le> n \<and> n \<le> 32))"

definition isupper :: "char \<Rightarrow> bool" where
  "isupper c = (let n = (of_char c :: int) in 65 \<le> n \<and> n \<le> 90)"

definition islower :: "char \<Rightarrow> bool" where
  "islower c = (let n = (of_char c :: int) in 97 \<le> n \<and> n \<le> 122)"

definition isdigit :: "char \<Rightarrow> bool" where
  "isdigit c = (let n = (of_char c :: int) in 48 \<le> n \<and> n \<le> 57)"

definition lower_char :: "char \<Rightarrow> char" where
  "lower_char c = (if isupper c then char_of ((of_char c :: int) + 32) else c)"

definition upper_char :: "char \<Rightarrow> char" where
  "upper_char c = (if islower c then char_of ((of_char c :: int) - 32) else c)"

text \<open>\<open>s.lower()\<close>\<close>

definition lower :: "string \<Rightarrow> string" where
  "lower s = map lower_char s"

text \<open>\<open>s.strip()\<close>: leading and trailing white space removed.\<close>

definition strip :: "string \<Rightarrow> string" where
  "strip s = rev (dropWhile isspace (rev (dropWhile isspace s)))"

text \<open>\<open>s.capitalize()\<close>: first character upper-cased, the rest lower-cased.\<close>

fun capitalize :: "string \<Rightarrow> string" where
  "capitalize [] = []"
| "capitalize (c # cs) = upper_char c # map lower_char cs"

text \<open>
  \<open>s.title()\<close>: a letter that follows a letter is lower-cased, any other letter is
  upper-cased; the flag is whether the previous character was a letter.
\<close>

fun title_from :: "bool \<Rightarrow> string \<Rightarrow> string" where
  "title_from prev [] = []"
| "title_from prev (c # cs) =
     (if prev then lower_char c else upper_char c) # title_from (isupper c \<or> islower c) cs"

definition title :: "string \<Rightarrow> string" where
  "title s = title_from False s"

text \<open>
  \<open>s.replace(old, new)\<close>: occurrences are found left to right and do not overlap; an empty
  \<open>old\<close> matches before every character and at the end.
\<close>

function replace :: "string \<Rightarrow> string \<Rightarrow> string \<Rightarrow> string" where
  "replace old new [] = (if old = [] then new else [])"
| "replace old new (c # cs) =
     (if old = [] then new @ c # replace old new cs
      else if take (length old) (c # cs) = old
           then new @ replace old new (drop (length old) (c # cs))
           else c # replace old new cs)"
  by pat_completeness auto
termination
  by (relation "measure (\<lambda>(old, new, s). length s)") auto

text \<open>
  \<open>s.split()\<close>: the maximal runs of characters that are not white space. The second
  argument is the run read so far.
\<close>

fun split_from :: "string \<Rightarrow> string \<Rightarrow> string list" where
  "split_from [] w = (if w = [] then [] else [w])"
| "split_from (c # cs) w =
     (if isspace c then (if w = [] then split_from cs [] else w # split_from cs [])
      else split_from cs (w @ [c]))"

definition split :: "string \<Rightarrow> string list" where
  "split s = split_from s []"

text \<open>\<open>sep.join(xs)\<close>\<close>

fun join :: "string \<Rightarrow> string list \<Rightarrow> string" where
  "join sep [] = []"
| "join sep [x] = x"
| "join sep (x # y # ys) = x @ sep @ join sep (y # ys)"

text \<open>\<open>d.get(k, default)\<close>\<close>

definition dict_get :: "('k \<rightharpoonup> 'v) \<Rightarrow> 'k \<Rightarrow> 'v \<Rightarrow> 'v" where
  "dict_get d k dflt = (case d k of None \<Rightarrow> dflt | Some v \<Rightarrow> v)"

section \<open>Text normaliser\<close>

text \<open>
  \<open>re.sub(r"\(.*?\)", "", text)\<close>: at an opening parenthesis the lazy \<open>.*?\<close> runs to the
  first closing parenthesis, and \<open>.\<close> does not match a newline; where a newline or the end
  of the text comes first there is no match at that position and the parenthesis stays.
\<close>

fun paren_close :: "string \<Rightarrow> string option" where
  "paren_close [] = None"
| "paren_close (c # cs) =
     (if c = CHR '')'' then Some cs
      else if c = CHR 0x0A then None
      else paren_close cs)"

lemma paren_close_length: "paren_close cs = Some rest \<Longrightarrow> length rest < length cs"
  by (induction cs) (auto split: if_splits)

function re_sub_parens :: "string \<Rightarrow> string" where
  "re_sub_parens [] = []"
| "re_sub_parens (c # cs) =
     (if c = CHR ''(''
      then (case paren_close cs of
              Some rest \<Rightarrow> re_sub_parens rest
            | None \<Rightarrow> c # re_sub_parens cs)
      else c # re_sub_parens cs)"
  by pat_completeness auto
termination
  by (relation "measure length") (auto dest: paren_close_length)

text \<open>\<open>re.sub(r"\s+", " ", text)\<close>: every run of white space becomes one space.\<close>

function re_sub_spaces :: "string \<Rightarrow> string" where
  "re_sub_spaces [] = []"
| "re_sub_spaces (c # cs) =
     (if isspace c then CHR '' '' # re_sub_spaces (dropWhile isspace cs)
      else c # re_sub_spaces cs)"
  by pat_completeness auto
termination
  by (relation "measure length") (auto simp: length_dropWhile_le less_Suc_eq_le)

definition garbage :: "string list" where
  "garbage = [''here's a'', ''here is a'', ''4-5 line'',
              ''for revision'', ''summary'', ''unfortunately'',
              ''the given text'', ''i can provide'']"

text \<open>The loop \<open>for g in garbage: text = text.replace(g, "")\<close>.\<close>

fun remove_garbage :: "string list \<Rightarrow> string \<Rightarrow> string" where
  "remove_garbage [] text = text"
| "remove_garbage (g # gs) text = remove_garbage gs (replace g [] text)"

definition clean_text :: "pyval \<Rightarrow> string" where
  "clean_text v =
     (case v of
        Str text \<Rightarrow>
          capitalize (strip (re_sub_spaces (re_sub_parens (remove_garbage garbage (lower text)))))
      | _ \<Rightarrow> [])"

text \<open>\<open>re.sub(r"[^a-z0-9 ]", "", s.lower()).strip()\<close>\<close>

definition normalize_key :: "string \<Rightarrow> string" where
  "normalize_key s =
     strip (filter (\<lambda>c. islower c \<or> isdigit c \<or> c = CHR '' '') (lower s))"

section \<open>Configuration\<close>

definition WORDS_PER_MIN :: int where
  "WORDS_PER_MIN = 120"

definition MAX_RELATED_TILES :: nat where
  "MAX_RELATED_TILES = 12"

definition STAGE_ORDER :: "string list" where
  "STAGE_ORDER =
     [''definition'', ''types'', ''construction'', ''working'',
      ''formulas'', ''applications'', ''advantages'',
      ''disadvantages'', ''general'']"

definition STAGE_TITLES :: "string \<rightharpoonup> string" where
  "STAGE_TITLES = map_of
     [(''definition'', ''Definition''),
      (''types'', ''Types''),
      (''construction'', ''Construction / Structure''),
      (''working'', ''Working Principle''),
      (''formulas'', ''Key Formulas''),
      (''applications'', ''Applications''),
      (''advantages'', ''Advantages''),
      (''disadvantages'', ''Limitations''),
      (''general'', ''Additional Notes'')]"

text \<open>
  The source holds the weights as floating-point values. The model takes each literal as
  the decimal fraction that it denotes, so the table below is the table as it is written,
  not the binary values that Python stores for it.
\<close>

definition STAGE_WEIGHT :: "string \<rightharpoonup> rat" where
  "STAGE_WEIGHT = map_of
     [(''definition'', 12 / 100),
      (''types'', 12 / 100),
      (''construction'', 14 / 100),
      (''working'', 20 / 100),
      (''formulas'', 14 / 100),
      (''applications'', 14 / 100),
      (''advantages'', 7 / 100),
      (''disadvantages'', 7 / 100),
      (''general'', 10 / 100)]"

text \<open>\<open>int(x)\<close> on a float: truncation towards zero.\<close>

definition py_int :: "rat \<Rightarrow> int" where
  "py_int x = (if 0 \<le> x then \<lfloor>x\<rfloor> else \<lceil>x\<rceil>)"

section \<open>Explanation assembler\<close>

text \<open>
  One entry of the \<open>metadatas\<close> list that the index returns. A key of the Python dict
  may be absent (\<open>None\<close> here). Topic and stage are strings, as the chunker stores them;
  the summary is any value, since \<open>clean_text\<close> tests its type.
\<close>

record chunk_meta =
  meta_topic :: "string option"
  meta_stage :: "string option"
  meta_summary :: "pyval option"

type_synonym sections = "string \<rightharpoonup> string list"

text \<open>\<open>sections = {k: [] for k in STAGE_ORDER}\<close>\<close>

definition init_sections :: sections where
  "init_sections = map_of (map (\<lambda>k. (k, [])) STAGE_ORDER)"

text \<open>
  The body of the first loop of \<open>get_explanation\<close>, on the state \<open>(sections, seen)\<close>:
  the cleaned summary is skipped when it is empty or when its key was seen before, and
  otherwise appended by \<open>sections.setdefault(stage, []).append(summary)\<close>.
\<close>

definition place :: "chunk_meta \<Rightarrow> sections \<times> string set \<Rightarrow> sections \<times> string set" where
  "place meta st =
     (case st of (sections, seen) \<Rightarrow>
        let stage = (case meta_stage meta of None \<Rightarrow> ''general'' | Some s \<Rightarrow> s);
            summary = clean_text (case meta_summary meta of None \<Rightarrow> Str [] | Some v \<Rightarrow> v)
        in if summary = [] then (sections, seen)
           else let key = normalize_key summary
                in if key \<in> seen then (sections, seen)
                   else (sections(stage \<mapsto> dict_get sections stage [] @ [summary]),
                         insert key seen))"

fun fill_sections :: "chunk_meta list \<Rightarrow> sections \<times> string set \<Rightarrow> sections \<times> string set" where
  "fill_sections [] st = st"
| "fill_sections (meta # metadatas) st = fill_sections metadatas (place meta st)"

text \<open>
  The inner loop \<open>for line in lines\<close> on the state \<open>(paragraph, stage_words, used_words)\<close>:
  the line is appended and counted first, the two limits are tested afterwards.
\<close>

fun stage_lines :: "int \<Rightarrow> int \<Rightarrow> string list \<Rightarrow> string list \<times> int \<times> int
    \<Rightarrow> string list \<times> int \<times> int" where
  "stage_lines stage_budget max_words [] st = st"
| "stage_lines stage_budget max_words (line # lines) (paragraph, stage_words, used_words) =
     (let paragraph' = paragraph @ [line];
          w = int (length (split line));
          stage_words' = stage_words + w;
          used_words' = used_words + w
      in if stage_words' \<ge> stage_budget \<or> used_words' \<ge> max_words
         then (paragraph', stage_words', used_words')
         else stage_lines stage_budget max_words lines (paragraph', stage_words', used_words'))"

text \<open>\<open>STAGE_WEIGHT.get(stage, 0.1)\<close> and \<open>int(max_words * STAGE_WEIGHT.get(stage, 0.1))\<close>\<close>

definition stage_weight :: "string \<Rightarrow> rat" where
  "stage_weight stage = dict_get STAGE_WEIGHT stage (1 / 10)"

definition stage_budget_of :: "int \<Rightarrow> string \<Rightarrow> int" where
  "stage_budget_of max_words stage = py_int (of_int max_words * stage_weight stage)"

text \<open>
  The loop \<open>for stage in STAGE_ORDER\<close> on the state \<open>(output, used_words)\<close>.
  \<open>STAGE_TITLES[stage]\<close> raises \<open>KeyError\<close> for a stage without a title.
\<close>

fun walk_stages :: "int \<Rightarrow> sections \<Rightarrow> string list \<Rightarrow> string list \<times> int
    \<Rightarrow> py_error + string list \<times> int" where
  "walk_stages max_words sections [] st = Inr st"
| "walk_stages max_words sections (stage # stages) (output, used_words) =
     (let lines = dict_get sections stage []
      in if lines = [] then walk_stages max_words sections stages (output, used_words)
         else
           (case stage_lines (stage_budget_of max_words stage) max_words lines ([], 0, used_words) of
              (paragraph, stage_words, used_words') \<Rightarrow>
                (case (if paragraph \<noteq> []
                       then (case STAGE_TITLES stage of
                               None \<Rightarrow> Inl (KeyError stage)
                             | Some t \<Rightarrow>
                                 Inr (output @ [[CHR 0x0A] @ t @ '':'' @ [CHR 0x0A],
                                                join '' '' paragraph @ [CHR 0x0A]]))
                       else Inr output) of
                   Inl e \<Rightarrow> Inl e
                 | Inr output' \<Rightarrow>
                     if used_words' \<ge> max_words then Inr (output', used_words')
                     else walk_stages max_words sections stages (output', used_words'))))"

text \<open>
  \<open>metadatas\<close> is what the index returned for the query (at most 30 entries); the
  embedding and the index are outside the function.
\<close>

definition get_explanation :: "string \<Rightarrow> int \<Rightarrow> chunk_meta list \<Rightarrow> py_error + string" where
  "get_explanation query time_minutes metadatas =
     (let max_words = time_minutes * WORDS_PER_MIN;
          sections = fst (fill_sections metadatas (init_sections, {}))
      in case walk_stages max_words sections STAGE_ORDER ([], 0) of
           Inl e \<Rightarrow> Inl e
         | Inr (output, used_words) \<Rightarrow>
             Inr (if output = [] then query @ '' is an important electronics topic.''
                  else strip (join [CHR 0x0A] output)))"

section \<open>Related-topic ranker\<close>

text \<open>
  The first loop of \<open>get_related_topics\<close> on the state \<open>(ranked, seen)\<close>. The distances
  zipped with the metadata are not read.
\<close>

fun relevance_pass :: "string \<Rightarrow> chunk_meta list \<Rightarrow> string list \<times> string set
    \<Rightarrow> string list \<times> string set" where
  "relevance_pass query [] st = st"
| "relevance_pass query (meta # metas) (ranked, seen) =
     (let topic = (case meta_topic meta of None \<Rightarrow> [] | Some t \<Rightarrow> t)
      in if topic = [] then relevance_pass query metas (ranked, seen)
         else let topic_clean = title (replace ''_'' '' '' topic)
              in if lower topic_clean = lower query then relevance_pass query metas (ranked, seen)
                 else (case (if topic_clean \<notin> seen
                             then (ranked @ [topic_clean], insert topic_clean seen)
                             else (ranked, seen)) of
                         (ranked', seen') \<Rightarrow>
                           if length ranked' \<ge> MAX_RELATED_TILES div 2 then (ranked', seen')
                           else relevance_pass query metas (ranked', seen')))"

text \<open>
  The second loop, over \<open>all_topics\<close> in the order left by \<open>random.shuffle\<close>; the order
  is an argument of the model.
\<close>

fun exploration_pass :: "string \<Rightarrow> string list \<Rightarrow> string list \<times> string set
    \<Rightarrow> string list \<times> string set" where
  "exploration_pass query [] st = st"
| "exploration_pass query (t # ts) (ranked, seen) =
     (let t_clean = title (replace ''_'' '' '' t)
      in (case (if t_clean \<notin> seen \<and> lower t_clean \<noteq> lower query
                then (ranked @ [t_clean], insert t_clean seen)
                else (ranked, seen)) of
            (ranked', seen') \<Rightarrow>
              if length ranked' \<ge> MAX_RELATED_TILES then (ranked', seen')
              else exploration_pass query ts (ranked', seen')))"

text \<open>The topics \<open>m["topic"]\<close> of the entries that have the key.\<close>

fun topics_of :: "chunk_meta list \<Rightarrow> string list" where
  "topics_of [] = []"
| "topics_of (m # ms) = (case meta_topic m of None \<Rightarrow> topics_of ms | Some t \<Rightarrow> t # topics_of ms)"

text \<open>
  \<open>all_topics\<close> after \<open>list(set(...))\<close> and \<open>random.shuffle\<close> holds every topic of the
  batch once, in some order.
\<close>

definition is_shuffle :: "string list \<Rightarrow> chunk_meta list \<Rightarrow> bool" where
  "is_shuffle all_topics metas = (distinct all_topics \<and> set all_topics = set (topics_of metas))"

definition get_related_topics :: "string \<Rightarrow> chunk_meta list \<Rightarrow> string list \<Rightarrow> string list" where
  "get_related_topics query metas all_topics =
     fst (exploration_pass query all_topics (relevance_pass query metas ([], {})))"

section \<open>Public API\<close>

record response =
  topic :: string
  time_minutes :: int
  explanation :: string
  related_topics :: "string list"

text \<open>
  \<open>explain\<close> queries the index twice: \<open>metas30\<close> is the answer to the explanation query,
  \<open>metas40\<close> the answer to the related-topic query.
\<close>

definition explain :: "string \<Rightarrow> int \<Rightarrow> chunk_meta list \<Rightarrow> chunk_meta list \<Rightarrow> string list
    \<Rightarrow> py_error + response" where
  "explain query minutes metas30 metas40 all_topics =
     (case get_explanation query minutes metas30 of
        Inl e \<Rightarrow> Inl e
      | Inr text \<Rightarrow>
          Inr \<lparr>topic = query, time_minutes = minutes, explanation = text,
               related_topics = get_related_topics query metas40 all_topics\<rparr>)"

section \<open>Invariants and views used in the proofs\<close>

text \<open>
  What both loops keep true of the state \<open>(ranked, seen)\<close>: \<open>seen\<close> holds exactly the
  entries of \<open>ranked\<close>, no entry occurs twice, and no entry equals the query when both are
  lower-cased.
\<close>

definition ranked_ok :: "string \<Rightarrow> string list \<times> string set \<Rightarrow> bool" where
  "ranked_ok query st =
     (snd st = set (fst st) \<and> distinct (fst st) \<and> lower query \<notin> set (map lower (fst st)))"

text \<open>
  The sections that the stage loop emits, as pairs of a stage and its paragraph: the same
  loop as \<open>walk_stages\<close>, keeping the paragraphs apart instead of the rendered strings.
\<close>

fun emitted :: "int \<Rightarrow> sections \<Rightarrow> string list \<Rightarrow> int \<Rightarrow> (string \<times> string list) list" where
  "emitted max_words sections [] used_words = []"
| "emitted max_words sections (stage # stages) used_words =
     (let lines = dict_get sections stage []
      in if lines = [] then emitted max_words sections stages used_words
         else
           (case stage_lines (stage_budget_of max_words stage) max_words lines ([], 0, used_words) of
              (paragraph, stage_words, used_words') \<Rightarrow>
                (if paragraph \<noteq> [] then [(stage, paragraph)] else [])
                @ (if used_words' \<ge> max_words then []
                   else emitted max_words sections stages used_words')))"

definition emitted_sections :: "int \<Rightarrow> chunk_meta list \<Rightarrow> (string \<times> string list) list" where
  "emitted_sections minutes metadatas =
     emitted (minutes * WORDS_PER_MIN) (fst (fill_sections metadatas (init_sections, {})))
       STAGE_ORDER 0"

text \<open>The two strings appended to \<open>output\<close> for one section.\<close>

definition render_section :: "string \<times> string list \<Rightarrow> string list" where
  "render_section sec =
     [[CHR 0x0A] @ dict_get STAGE_TITLES (fst sec) [] @ '':'' @ [CHR 0x0A],
      join '' '' (snd sec) @ [CHR 0x0A]]"

definition render :: "string \<Rightarrow> (string \<times> string list) list \<Rightarrow> string" where
  "render query secs =
     (if secs = [] then query @ '' is an important electronics topic.''
      else strip (join [CHR 0x0A] (concat (map render_section secs))))"

text \<open>
  What the first loop of \<open>get_explanation\<close> keeps true of \<open>(sections, seen)\<close>: within a
  bucket no two lines share a key, every key of a line is in \<open>seen\<close>, and two different
  buckets share no key.
\<close>

definition buckets_ok :: "sections \<Rightarrow> string set \<Rightarrow> bool" where
  "buckets_ok sections seen =
     ((\<forall>s l. sections s = Some l \<longrightarrow>
          distinct (map normalize_key l) \<and> normalize_key ` set l \<subseteq> seen)
      \<and> (\<forall>s s' l l'. s \<noteq> s' \<longrightarrow> sections s = Some l \<longrightarrow> sections s' = Some l' \<longrightarrow>
          normalize_key ` set l \<inter> normalize_key ` set l' = {}))"

text \<open>
  The words of a section header, \<open>len((STAGE_TITLES[stage] + ":").split())\<close>, and the
  words of the lines of a list of sections, counted as the stage loop counts them.
\<close>

definition header_words :: "string \<Rightarrow> nat" where
  "header_words stage = length (split (dict_get STAGE_TITLES stage [] @ '':''))"

definition line_words :: "string list \<Rightarrow> int" where
  "line_words lines = sum_list (map (\<lambda>line. int (length (split line))) lines)"

definition body_words :: "(string \<times> string list) list \<Rightarrow> int" where
  "body_words secs = line_words (concat (map snd secs))"

section \<open>The stage weights\<close>

lemma stage_weight_dom: "dom STAGE_WEIGHT = set STAGE_ORDER"
  by (simp add: STAGE_WEIGHT_def STAGE_ORDER_def dom_map_of_conv_image_fst)

text \<open>
  C1 (as amended). Read as decimal literals, the weights of the nine stages of
  \<open>STAGE_ORDER\<close> add up to 1.10.
\<close>

theorem stage_weight_sum: "sum_list (map stage_weight STAGE_ORDER) = 11 / 10"
  by (simp add: stage_weight_def STAGE_ORDER_def STAGE_WEIGHT_def dict_get_def)

text \<open>C1 as stated fails: read as decimal literals, the table does not add up to 1.\<close>

theorem stage_weight_sum_not_one: "sum_list (map stage_weight STAGE_ORDER) \<noteq> 1"
  by (simp add: stage_weight_def STAGE_ORDER_def STAGE_WEIGHT_def dict_get_def)

section \<open>Properties of the text normaliser\<close>

lemma capitalize_Nil_iff [simp]: "capitalize s = [] \<longleftrightarrow> s = []"
  by (cases s) simp_all

text \<open>
  C9. \<open>clean_text\<close> returns the empty string on \<open>None\<close>, on the empty string, on every
  value that is not a string, and on every string that the cleaning steps reduce to
  nothing.
\<close>

theorem clean_text_empty:
  "clean_text NoneVal = [] \<and> clean_text (Str []) = []
   \<and> ((\<forall>s. v \<noteq> Str s) \<longrightarrow> clean_text v = [])
   \<and> (strip (re_sub_spaces (re_sub_parens (remove_garbage garbage (lower text)))) = []
        \<longrightarrow> clean_text (Str text) = [])"
proof -
  have "clean_text NoneVal = []"
    by (simp add: clean_text_def)
  moreover have "clean_text (Str []) = []"
    by (simp add: clean_text_def garbage_def lower_def strip_def)
  moreover have "(\<forall>s. v \<noteq> Str s) \<longrightarrow> clean_text v = []"
    by (cases v) (simp_all add: clean_text_def)
  moreover have "strip (re_sub_spaces (re_sub_parens (remove_garbage garbage (lower text)))) = []
      \<longrightarrow> clean_text (Str text) = []"
    by (simp add: clean_text_def)
  ultimately show ?thesis by blast
qed

theorem clean_text_empty_witness:
  "(\<forall>s. IntVal 3 \<noteq> Str s)
   \<and> strip (re_sub_spaces (re_sub_parens (remove_garbage garbage (lower ''Summary (x) '')))) = []
   \<and> clean_text (IntVal 3) = [] \<and> clean_text (Str ''Summary (x) '') = []"
proof -
  have h1: "\<forall>s. IntVal 3 \<noteq> Str s" by simp
  have h2: "strip (re_sub_spaces (re_sub_parens (remove_garbage garbage (lower ''Summary (x) '')))) = []"
    by code_simp
  show ?thesis
    using h1 h2 clean_text_empty [of "IntVal 3" "''Summary (x) ''"] by blast
qed

section \<open>Zero matches\<close>

lemma walk_stages_empty:
  "walk_stages max_words init_sections STAGE_ORDER ([], 0) = Inr ([], 0)"
  by (simp add: init_sections_def STAGE_ORDER_def dict_get_def)

lemma get_explanation_no_matches:
  "get_explanation query t [] = Inr (query @ '' is an important electronics topic.'')"
  by (simp add: get_explanation_def walk_stages_empty)

lemma is_shuffle_no_matches: "is_shuffle all_topics [] \<longleftrightarrow> all_topics = []"
  by (auto simp: is_shuffle_def)

text \<open>
  C8. When both index queries return no match, \<open>explain\<close> answers with the fallback
  sentence and an empty list of related topics, for every query and every time.
\<close>

theorem explain_no_matches:
  "is_shuffle all_topics [] \<Longrightarrow>
   explain query t [] [] all_topics =
     Inr \<lparr>topic = query, time_minutes = t,
          explanation = query @ '' is an important electronics topic.'',
          related_topics = []\<rparr>"
  by (simp add: explain_def get_explanation_no_matches is_shuffle_no_matches
      get_related_topics_def)

theorem explain_no_matches_witness:
  "is_shuffle [] []
   \<and> explain ''any topic'' 5 [] [] [] =
       Inr \<lparr>topic = ''any topic'', time_minutes = 5,
            explanation = ''any topic is an important electronics topic.'',
            related_topics = []\<rparr>"
proof -
  have h: "is_shuffle [] []" by (simp add: is_shuffle_def)
  show ?thesis using h explain_no_matches [OF h, of "''any topic''" 5] by simp
qed

section \<open>Properties of the related-topic ranker\<close>

lemma ranked_ok_init: "ranked_ok query ([], {})"
  by (simp add: ranked_ok_def)

lemma relevance_pass_ok:
  "ranked_ok query (ranked, seen) \<Longrightarrow> ranked_ok query (relevance_pass query metas (ranked, seen))"
proof (induction metas arbitrary: ranked seen)
  case Nil
  then show ?case by simp
next
  case (Cons meta metas)
  have step: "ranked_ok query (ranked @ [x], insert x seen)"
    if "x \<notin> seen" "lower x \<noteq> lower query" for x
    using Cons.prems that by (auto simp: ranked_ok_def)
  show ?case
    using Cons.IH [OF Cons.prems] Cons.IH [OF step] Cons.prems step
    by (simp add: Let_def)
qed

lemma exploration_pass_ok:
  "ranked_ok query (ranked, seen) \<Longrightarrow>
   ranked_ok query (exploration_pass query all_topics (ranked, seen))"
proof (induction all_topics arbitrary: ranked seen)
  case Nil
  then show ?case by simp
next
  case (Cons t ts)
  have step: "ranked_ok query (ranked @ [x], insert x seen)"
    if "x \<notin> seen" "lower x \<noteq> lower query" for x
    using Cons.prems that by (auto simp: ranked_ok_def)
  show ?case
    using Cons.IH [OF Cons.prems] Cons.IH [OF step] Cons.prems step
    by (simp add: Let_def)
qed

lemma relevance_pass_length:
  "length ranked < MAX_RELATED_TILES div 2 \<Longrightarrow>
   length (fst (relevance_pass query metas (ranked, seen))) \<le> MAX_RELATED_TILES div 2"
  by (induction metas arbitrary: ranked seen) (auto simp: Let_def)

lemma exploration_pass_length:
  "length ranked < MAX_RELATED_TILES \<Longrightarrow>
   length (fst (exploration_pass query all_topics (ranked, seen))) \<le> MAX_RELATED_TILES"
  by (induction all_topics arbitrary: ranked seen) (auto simp: Let_def)

lemma relevance_pass_stops:
  "length ranked < MAX_RELATED_TILES div 2 \<Longrightarrow>
   length (fst (relevance_pass query ms1 (ranked, seen))) \<ge> MAX_RELATED_TILES div 2 \<Longrightarrow>
   relevance_pass query (ms1 @ ms2) (ranked, seen) = relevance_pass query ms1 (ranked, seen)"
proof (induction ms1 arbitrary: ranked seen)
  case Nil
  then show ?case by simp
next
  case (Cons m ms1)
  let ?topic = "case meta_topic m of None \<Rightarrow> [] | Some t \<Rightarrow> t"
  let ?tc = "title (replace ''_'' '' '' ?topic)"
  show ?case
  proof (cases "?topic = [] \<or> lower ?tc = lower query \<or> ?tc \<in> seen")
    case True
    then have skip: "relevance_pass query (m # ms) (ranked, seen) =
        relevance_pass query ms (ranked, seen)" for ms
      using Cons.prems(1) by (auto simp: Let_def)
    show ?thesis
      using Cons.IH [of ranked seen] Cons.prems
      by (simp add: skip del: relevance_pass.simps)
  next
    case False
    show ?thesis
    proof (cases "MAX_RELATED_TILES div 2 \<le> Suc (length ranked)")
      case True
      with False have "relevance_pass query (m # ms) (ranked, seen) =
          (ranked @ [?tc], insert ?tc seen)" for ms
        by (simp add: Let_def)
      then show ?thesis by (simp del: relevance_pass.simps)
    next
      case stay: False
      with False have go: "relevance_pass query (m # ms) (ranked, seen) =
          relevance_pass query ms (ranked @ [?tc], insert ?tc seen)" for ms
        by (simp add: Let_def)
      show ?thesis
        using Cons.IH [of "ranked @ [?tc]" "insert ?tc seen"] Cons.prems(2) stay
        by (simp add: go del: relevance_pass.simps)
    qed
  qed
qed

text \<open>
  C7. The relevance pass leaves at most \<open>MAX_RELATED_TILES // 2 = 6\<close> entries, and once
  the matches read so far have produced 6 entries no later match is read: the result on
  a longer list of matches is the same.
\<close>

theorem relevance_pass_cap:
  "MAX_RELATED_TILES div 2 = 6
   \<and> length (fst (relevance_pass query metas ([], {}))) \<le> 6
   \<and> (length (fst (relevance_pass query ms1 ([], {}))) = 6 \<longrightarrow>
        relevance_pass query (ms1 @ ms2) ([], {}) = relevance_pass query ms1 ([], {}))"
proof -
  have six: "MAX_RELATED_TILES div 2 = 6"
    by (simp add: MAX_RELATED_TILES_def)
  have "length (fst (relevance_pass query metas ([], {}))) \<le> 6"
    using relevance_pass_length [of "[]" query metas "{}"] six by simp
  moreover have "length (fst (relevance_pass query ms1 ([], {}))) = 6 \<longrightarrow>
      relevance_pass query (ms1 @ ms2) ([], {}) = relevance_pass query ms1 ([], {})"
    using relevance_pass_stops [of "[]" query ms1 "{}" ms2] six by simp
  ultimately show ?thesis using six by blast
qed

text \<open>
  C5. The list returned by the ranker has no entry equal to the query when both are
  lower-cased, has at most 12 entries and has no entry twice, for every query, every
  list of matches and every order of the shuffled topics.
\<close>

theorem get_related_topics_sound:
  "lower query \<notin> set (map lower (get_related_topics query metas all_topics))
   \<and> length (get_related_topics query metas all_topics) \<le> 12
   \<and> distinct (get_related_topics query metas all_topics)"
proof -
  obtain ranked seen where p1: "relevance_pass query metas ([], {}) = (ranked, seen)"
    by (cases "relevance_pass query metas ([], {})")
  have ok1: "ranked_ok query (ranked, seen)"
    using relevance_pass_ok [OF ranked_ok_init, of query metas] p1 by simp
  have "length ranked \<le> MAX_RELATED_TILES div 2"
    using relevance_pass_length [of "[]" query metas "{}"] p1
    by (simp add: MAX_RELATED_TILES_def)
  then have len1: "length ranked < MAX_RELATED_TILES"
    by (simp add: MAX_RELATED_TILES_def)
  have "ranked_ok query (exploration_pass query all_topics (ranked, seen))"
    using exploration_pass_ok [OF ok1] .
  moreover have "length (fst (exploration_pass query all_topics (ranked, seen))) \<le> 12"
    using exploration_pass_length [OF len1, of query all_topics seen]
    by (simp add: MAX_RELATED_TILES_def)
  ultimately show ?thesis
    by (simp add: get_related_topics_def p1 ranked_ok_def)
qed

theorem relevance_pass_cap_witness:
  "length (fst (relevance_pass ''q''
      [\<lparr>meta_topic = Some ''a'', meta_stage = None, meta_summary = None\<rparr>,
       \<lparr>meta_topic = Some ''b'', meta_stage = None, meta_summary = None\<rparr>,
       \<lparr>meta_topic = Some ''c'', meta_stage = None, meta_summary = None\<rparr>,
       \<lparr>meta_topic = Some ''d'', meta_stage = None, meta_summary = None\<rparr>,
       \<lparr>meta_topic = Some ''e'', meta_stage = None, meta_summary = None\<rparr>,
       \<lparr>meta_topic = Some ''f'', meta_stage = None, meta_summary = None\<rparr>] ([], {}))) = 6
   \<and> fst (relevance_pass ''q''
      ([\<lparr>meta_topic = Some ''a'', meta_stage = None, meta_summary = None\<rparr>,
        \<lparr>meta_topic = Some ''b'', meta_stage = None, meta_summary = None\<rparr>,
        \<lparr>meta_topic = Some ''c'', meta_stage = None, meta_summary = None\<rparr>,
        \<lparr>meta_topic = Some ''d'', meta_stage = None, meta_summary = None\<rparr>,
        \<lparr>meta_topic = Some ''e'', meta_stage = None, meta_summary = None\<rparr>,
        \<lparr>meta_topic = Some ''f'', meta_stage = None, meta_summary = None\<rparr>]
       @ [\<lparr>meta_topic = Some ''g'', meta_stage = None, meta_summary = None\<rparr>]) ([], {}))
     = [''A'', ''B'', ''C'', ''D'', ''E'', ''F'']"
proof -
  let ?ms1 = "[\<lparr>meta_topic = Some ''a'', meta_stage = None, meta_summary = None\<rparr>,
       \<lparr>meta_topic = Some ''b'', meta_stage = None, meta_summary = None\<rparr>,
       \<lparr>meta_topic = Some ''c'', meta_stage = None, meta_summary = None\<rparr>,
       \<lparr>meta_topic = Some ''d'', meta_stage = None, meta_summary = None\<rparr>,
       \<lparr>meta_topic = Some ''e'', meta_stage = None, meta_summary = None\<rparr>,
       \<lparr>meta_topic = Some ''f'', meta_stage = None, meta_summary = None\<rparr>]"
  let ?ms2 = "[\<lparr>meta_topic = Some ''g'', meta_stage = None, meta_summary = None\<rparr>]"
  have val: "fst (relevance_pass ''q'' ?ms1 ([], {})) = [''A'', ''B'', ''C'', ''D'', ''E'', ''F'']"
    by code_simp
  then have h: "length (fst (relevance_pass ''q'' ?ms1 ([], {}))) = 6"
    by simp
  from relevance_pass_cap [of "''q''" ?ms1 ?ms1 ?ms2] h
  have "relevance_pass ''q'' (?ms1 @ ?ms2) ([], {}) = relevance_pass ''q'' ?ms1 ([], {})"
    by blast
  with val h show ?thesis by simp
qed

lemma lower_Nil_iff [simp]: "lower s = [] \<longleftrightarrow> s = []"
  by (simp add: lower_def)

lemma title_from_Nil_iff [simp]: "title_from b s = [] \<longleftrightarrow> s = []"
  by (cases s) simp_all

lemma replace_underscore_Nil_iff [simp]: "replace ''_'' '' '' s = [] \<longleftrightarrow> s = []"
  by (cases s) simp_all

lemma topic_clean_Nil_iff: "title (replace ''_'' '' '' s) = [] \<longleftrightarrow> s = []"
  by (simp add: title_def)

lemma relevance_pass_no_empty:
  "[] \<notin> set ranked \<Longrightarrow> [] \<notin> set (fst (relevance_pass query metas (ranked, seen)))"
proof (induction metas arbitrary: ranked seen)
  case Nil
  then show ?case by simp
next
  case (Cons m metas)
  have step: "[] \<notin> set (ranked @ [title (replace ''_'' '' '' t)])" if "t \<noteq> []" for t
    using Cons.prems that topic_clean_Nil_iff [of t] by auto
  show ?case
    using Cons.IH [OF Cons.prems] Cons.IH [OF step] Cons.prems step
    by (simp add: Let_def)
qed

lemma relevance_pass_skips_empty:
  "meta_topic m = Some [] \<Longrightarrow>
   relevance_pass query (m # metas) (ranked, seen) = relevance_pass query metas (ranked, seen)"
  by simp

lemma exploration_pass_mono:
  "set ranked \<subseteq> set (fst (exploration_pass query ts (ranked, seen)))"
proof (induction ts arbitrary: ranked seen)
  case Nil
  then show ?case by simp
next
  case (Cons t ts)
  show ?case
    using Cons.IH [of ranked seen] Cons.IH [of "ranked @ [title (replace ''_'' '' '' t)]"]
    by (auto simp: Let_def)
qed

lemma exploration_pass_append:
  "length (fst (exploration_pass query pre (ranked, seen))) < MAX_RELATED_TILES \<Longrightarrow>
   exploration_pass query (pre @ rest) (ranked, seen) =
     exploration_pass query rest (exploration_pass query pre (ranked, seen))"
proof (induction pre arbitrary: ranked seen)
  case Nil
  then show ?case by simp
next
  case (Cons t pre)
  let ?tc = "title (replace ''_'' '' '' t)"
  let ?st = "if ?tc \<notin> seen \<and> lower ?tc \<noteq> lower query
             then (ranked @ [?tc], insert ?tc seen) else (ranked, seen)"
  have unfold: "exploration_pass query (t # ts) (ranked, seen) =
      (if length (fst ?st) \<ge> MAX_RELATED_TILES then ?st
       else exploration_pass query ts ?st)" for ts
    by (simp add: Let_def)
  have small: "\<not> length (fst ?st) \<ge> MAX_RELATED_TILES"
    using Cons.prems unfolding unfold [of pre] by (auto split: if_splits)
  have "length (fst (exploration_pass query pre ?st)) < MAX_RELATED_TILES"
    using Cons.prems small unfolding unfold [of pre] by (simp split: if_splits)
  then have "exploration_pass query (pre @ rest) ?st =
      exploration_pass query rest (exploration_pass query pre ?st)"
    using Cons.IH [of "fst ?st" "snd ?st"] by simp
  then show ?case
    using small unfolding append_Cons unfold by simp
qed

lemma exploration_pass_takes_empty:
  assumes "query \<noteq> []" and "snd st = set (fst st)"
  shows "[] \<in> set (fst (exploration_pass query ([] # post) st))"
proof -
  obtain ranked seen where st: "st = (ranked, seen)" by (cases st)
  have seen: "seen = set ranked" using assms(2) st by simp
  show ?thesis
  proof (cases "[] \<in> seen")
    case True
    then show ?thesis
      using exploration_pass_mono [of ranked query "[] # post" seen] seen st by auto
  next
    case False
    then show ?thesis
      using assms(1) exploration_pass_mono [of "ranked @ [[]]" query post "insert [] seen"]
      by (auto simp: st Let_def title_def lower_def)
  qed
qed

text \<open>
  C10. A match whose topic is the empty string is skipped by the relevance pass, which
  never lists the empty string, but the empty string is a candidate of the exploration
  pass: for a non-empty query, when the loop reaches it (the list has fewer than 12
  entries after the candidates before it), the returned list contains the empty string.
\<close>

theorem empty_topic_asymmetry:
  assumes "query \<noteq> []"
    and "is_shuffle (pre @ [] # post) metas"
    and "length (fst (exploration_pass query pre (relevance_pass query metas ([], {}))))
           < MAX_RELATED_TILES"
  shows "Some [] \<in> set (map meta_topic metas)
     \<and> [] \<notin> set (fst (relevance_pass query metas ([], {})))
     \<and> [] \<in> set (get_related_topics query metas (pre @ [] # post))"
proof -
  obtain ranked seen where p1: "relevance_pass query metas ([], {}) = (ranked, seen)"
    by (cases "relevance_pass query metas ([], {})")
  have "[] \<in> set (topics_of metas)"
    using assms(2) by (auto simp: is_shuffle_def)
  then have a: "Some [] \<in> set (map meta_topic metas)"
    by (induction metas) (auto split: option.splits)
  have b: "[] \<notin> set (fst (relevance_pass query metas ([], {})))"
    using relevance_pass_no_empty [of "[]" query metas "{}"] by simp
  have ok1: "ranked_ok query (ranked, seen)"
    using relevance_pass_ok [OF ranked_ok_init, of query metas] p1 by simp
  have ok2: "ranked_ok query (exploration_pass query pre (ranked, seen))"
    using exploration_pass_ok [OF ok1] .
  have "exploration_pass query (pre @ [] # post) (ranked, seen) =
      exploration_pass query ([] # post) (exploration_pass query pre (ranked, seen))"
    using exploration_pass_append [of query pre ranked seen "[] # post"] assms(3) p1 by simp
  moreover have "[] \<in> set (fst (exploration_pass query ([] # post)
      (exploration_pass query pre (ranked, seen))))"
    using exploration_pass_takes_empty [OF assms(1)] ok2 by (simp add: ranked_ok_def)
  ultimately have c: "[] \<in> set (get_related_topics query metas (pre @ [] # post))"
    by (simp add: get_related_topics_def p1)
  from a b c show ?thesis by blast
qed

theorem empty_topic_asymmetry_witness:
  "''bjt'' \<noteq> []
   \<and> is_shuffle ([''mosfet''] @ [] # [''diode''])
        [\<lparr>meta_topic = Some ''diode'', meta_stage = None, meta_summary = None\<rparr>,
         \<lparr>meta_topic = Some [], meta_stage = None, meta_summary = None\<rparr>,
         \<lparr>meta_topic = Some ''mosfet'', meta_stage = None, meta_summary = None\<rparr>]
   \<and> get_related_topics ''bjt''
        [\<lparr>meta_topic = Some ''diode'', meta_stage = None, meta_summary = None\<rparr>,
         \<lparr>meta_topic = Some [], meta_stage = None, meta_summary = None\<rparr>,
         \<lparr>meta_topic = Some ''mosfet'', meta_stage = None, meta_summary = None\<rparr>]
        ([''mosfet''] @ [] # [''diode'']) = [''Diode'', ''Mosfet'', []]
   \<and> [] \<in> set (get_related_topics ''bjt''
        [\<lparr>meta_topic = Some ''diode'', meta_stage = None, meta_summary = None\<rparr>,
         \<lparr>meta_topic = Some [], meta_stage = None, meta_summary = None\<rparr>,
         \<lparr>meta_topic = Some ''mosfet'', meta_stage = None, meta_summary = None\<rparr>]
        ([''mosfet''] @ [] # [''diode'']))"
proof -
  let ?ms = "[\<lparr>meta_topic = Some ''diode'', meta_stage = None, meta_summary = None\<rparr>,
         \<lparr>meta_topic = Some [], meta_stage = None, meta_summary = None\<rparr>,
         \<lparr>meta_topic = Some ''mosfet'', meta_stage = None, meta_summary = None\<rparr>]"
  have h1: "''bjt'' \<noteq> []" by simp
  have h2: "is_shuffle ([''mosfet''] @ [] # [''diode'']) ?ms"
    by (auto simp: is_shuffle_def)
  have v: "fst (exploration_pass ''bjt'' [''mosfet''] (relevance_pass ''bjt'' ?ms ([], {})))
      = [''Diode'', ''Mosfet'']"
    by code_simp
  have h3: "length (fst (exploration_pass ''bjt'' [''mosfet''] (relevance_pass ''bjt'' ?ms ([], {}))))
      < MAX_RELATED_TILES"
    unfolding v by (simp add: MAX_RELATED_TILES_def)
  have r: "get_related_topics ''bjt'' ?ms ([''mosfet''] @ [] # [''diode'']) = [''Diode'', ''Mosfet'', []]"
    by code_simp
  show ?thesis
    using h1 h2 r empty_topic_asymmetry [OF h1 h2 h3] by blast
qed

section \<open>The assembler's output as a list of sections\<close>

lemma walk_stages_emitted:
  "set stages \<subseteq> dom STAGE_TITLES \<Longrightarrow>
   \<exists>u. walk_stages max_words sections stages (out0, used_words) =
     Inr (out0 @ concat (map render_section (emitted max_words sections stages used_words)), u)"
proof (induction stages arbitrary: out0 used_words)
  case Nil
  then show ?case by simp
next
  case (Cons stage stages)
  then obtain t where t: "STAGE_TITLES stage = Some t" by auto
  have sub: "set stages \<subseteq> dom STAGE_TITLES" using Cons.prems by simp
  show ?case
  proof (cases "dict_get sections stage [] = []")
    case True
    then show ?thesis using Cons.IH [OF sub] by simp
  next
    case False
    obtain para stage_words used' where sl:
      "stage_lines (stage_budget_of max_words stage) max_words (dict_get sections stage [])
         ([], 0, used_words) = (para, stage_words, used')"
      by (cases "stage_lines (stage_budget_of max_words stage) max_words
            (dict_get sections stage []) ([], 0, used_words)") auto
    show ?thesis
    proof (cases "para = []")
      case True
      then show ?thesis
        using False sl Cons.IH [OF sub, of out0 used'] by simp
    next
      case nonempty: False
      let ?out = "out0 @ [[CHR 0x0A] @ t @ '':'' @ [CHR 0x0A], join '' '' para @ [CHR 0x0A]]"
      show ?thesis
        using False sl nonempty t Cons.IH [OF sub, of ?out used']
        by (simp add: render_section_def dict_get_def)
    qed
  qed
qed

lemma stage_titles_dom: "set STAGE_ORDER \<subseteq> dom STAGE_TITLES"
  by (simp add: STAGE_TITLES_def STAGE_ORDER_def dom_map_of_conv_image_fst)

lemma render_section_not_Nil: "secs \<noteq> [] \<Longrightarrow> concat (map render_section secs) \<noteq> []"
  by (cases secs) (simp_all add: render_section_def)

lemma get_explanation_render:
  "get_explanation query t metas = Inr (render query (emitted_sections t metas))"
proof -
  let ?secs = "fst (fill_sections metas (init_sections, {}))"
  obtain u where "walk_stages (t * WORDS_PER_MIN) ?secs STAGE_ORDER ([], 0) =
      Inr (concat (map render_section (emitted_sections t metas)), u)"
    using walk_stages_emitted [OF stage_titles_dom, of "t * WORDS_PER_MIN" ?secs "[]" 0]
    by (auto simp: emitted_sections_def)
  then show ?thesis
    using render_section_not_Nil [of "emitted_sections t metas"]
    by (auto simp: get_explanation_def render_def)
qed

lemma emitted_stages_subseq: "subseq (map fst (emitted max_words sections stages u)) stages"
proof (induction stages arbitrary: u)
  case Nil
  then show ?case by simp
next
  case (Cons stage stages)
  show ?case
  proof (cases "dict_get sections stage [] = []")
    case True
    then show ?thesis using Cons.IH [of u] by auto
  next
    case False
    obtain para stage_words used' where sl:
      "stage_lines (stage_budget_of max_words stage) max_words (dict_get sections stage [])
         ([], 0, u) = (para, stage_words, used')"
      by (cases "stage_lines (stage_budget_of max_words stage) max_words
            (dict_get sections stage []) ([], 0, u)") auto
    show ?thesis
      using False sl Cons.IH [of used'] by auto
  qed
qed

text \<open>
  C6. The returned text is the rendering of the emitted sections in their order, and
  the stages of these sections are a subsequence of \<open>STAGE_ORDER\<close>: each stage at most
  once, in the canonical order, whatever the order of the matches.
\<close>

theorem sections_in_canonical_order:
  "get_explanation query t metas = Inr (render query (emitted_sections t metas))
   \<and> subseq (map fst (emitted_sections t metas)) STAGE_ORDER"
  using get_explanation_render [of query t metas]
    emitted_stages_subseq [of "t * WORDS_PER_MIN" "fst (fill_sections metas (init_sections, {}))" STAGE_ORDER 0]
  by (simp add: emitted_sections_def)

section \<open>Matches without a canonical stage\<close>

lemma place_fresh:
  assumes "summary = clean_text (case meta_summary m of None \<Rightarrow> Str [] | Some v \<Rightarrow> v)"
    and "summary \<noteq> []" and "normalize_key summary \<notin> seen"
  shows "place m (sections, seen) =
     (let stage = (case meta_stage m of None \<Rightarrow> ''general'' | Some s \<Rightarrow> s)
      in (sections(stage \<mapsto> dict_get sections stage [] @ [summary]),
          insert (normalize_key summary) seen))"
  using assms by (simp add: place_def Let_def)

lemma stage_lines_single:
  "stage_lines b mw [line] ([], 0, 0) = ([line], int (length (split line)), int (length (split line)))"
  by (simp add: Let_def)

lemma walk_stages_general_only:
  assumes "summary \<noteq> []"
  shows "walk_stages mw (init_sections(''general'' \<mapsto> [summary])) STAGE_ORDER ([], 0) =
     Inr (render_section (''general'', [summary]), int (length (split summary)))"
  using assms
  by (simp add: init_sections_def STAGE_ORDER_def dict_get_def STAGE_TITLES_def
      render_section_def Let_def)

text \<open>
  What the first loop does with the stage of a match whose cleaned summary is not empty
  and whose key is new: when the stage is absent the summary is appended to the general
  bucket, and a batch of that one match is answered with the general section holding the
  summary; when the stage is present but not canonical the summary goes to a bucket of
  that name, which the stage loop never reads, and the buckets of the canonical stages,
  the general one included, stay as they are.
\<close>

theorem missing_stage_is_general:
  assumes "summary = clean_text (case meta_summary m of None \<Rightarrow> Str [] | Some v \<Rightarrow> v)"
    and "summary \<noteq> []" and "normalize_key summary \<notin> seen"
  shows "(meta_stage m = None \<longrightarrow>
            dict_get (fst (place m (sections, seen))) ''general'' []
              = dict_get sections ''general'' [] @ [summary]
          \<and> get_explanation query t [m]
              = Inr (strip (join [CHR 0x0A] (render_section (''general'', [summary])))))
     \<and> (\<forall>s. meta_stage m = Some s \<and> s \<notin> set STAGE_ORDER \<longrightarrow>
            dict_get (fst (place m (sections, seen))) s [] = dict_get sections s [] @ [summary]
          \<and> (\<forall>k \<in> set STAGE_ORDER. fst (place m (sections, seen)) k = sections k))"
proof -
  have a: "dict_get (fst (place m (sections, seen))) ''general'' []
      = dict_get sections ''general'' [] @ [summary]" if "meta_stage m = None"
    using that by (simp add: place_fresh [OF assms] dict_get_def Let_def)
  have b: "get_explanation query t [m]
      = Inr (strip (join [CHR 0x0A] (render_section (''general'', [summary]))))"
    if none: "meta_stage m = None"
  proof -
    have fresh: "normalize_key summary \<notin> {}" by simp
    have "fst (fill_sections [m] (init_sections, {})) = init_sections(''general'' \<mapsto> [summary])"
      using none by (simp add: place_fresh [OF assms(1,2) fresh] dict_get_def init_sections_def
          STAGE_ORDER_def Let_def)
    then show ?thesis
      using walk_stages_general_only [OF assms(2)]
      by (simp add: get_explanation_def render_section_def)
  qed
  have c: "dict_get (fst (place m (sections, seen))) s [] = dict_get sections s [] @ [summary]
      \<and> (\<forall>k \<in> set STAGE_ORDER. fst (place m (sections, seen)) k = sections k)"
    if "meta_stage m = Some s \<and> s \<notin> set STAGE_ORDER" for s
    using that by (auto simp: place_fresh [OF assms] dict_get_def Let_def)
  from a b c show ?thesis by blast
qed

theorem missing_stage_is_general_witness:
  "''Other note.'' = clean_text (case meta_summary
        \<lparr>meta_topic = None, meta_stage = None, meta_summary = Some (Str ''other note.'')\<rparr>
      of None \<Rightarrow> Str [] | Some v \<Rightarrow> v)
   \<and> ''Other note.'' \<noteq> [] \<and> normalize_key ''Other note.'' \<notin> {}
   \<and> dict_get (fst (place
        \<lparr>meta_topic = None, meta_stage = None, meta_summary = Some (Str ''other note.'')\<rparr>
        (init_sections, {}))) ''general'' [] = [''Other note.'']
   \<and> get_explanation ''q'' 1
        [\<lparr>meta_topic = None, meta_stage = None, meta_summary = Some (Str ''other note.'')\<rparr>]
      = Inr (''Additional Notes:'' @ [CHR 0x0A, CHR 0x0A] @ ''Other note.'')"
proof -
  let ?m = "\<lparr>meta_topic = None, meta_stage = None, meta_summary = Some (Str ''other note.'')\<rparr>"
  have h1: "''Other note.'' = clean_text (case meta_summary ?m of None \<Rightarrow> Str [] | Some v \<Rightarrow> v)"
    by code_simp
  have h2: "''Other note.'' \<noteq> []" by simp
  have h3: "normalize_key ''Other note.'' \<notin> {}" by simp
  have g: "dict_get init_sections ''general'' [] = []"
    by (simp add: init_sections_def STAGE_ORDER_def dict_get_def)
  have r: "strip (join [CHR 0x0A] (render_section (''general'', [''Other note.''])))
      = ''Additional Notes:'' @ [CHR 0x0A, CHR 0x0A] @ ''Other note.''"
    by code_simp
  have none: "meta_stage ?m = None" by simp
  from missing_stage_is_general [OF h1 h2 h3, of init_sections "''q''" 1] none
  have "dict_get (fst (place ?m (init_sections, {}))) ''general'' []
          = dict_get init_sections ''general'' [] @ [''Other note.'']
      \<and> get_explanation ''q'' 1 [?m]
          = Inr (strip (join [CHR 0x0A] (render_section (''general'', [''Other note.'']))))"
    by blast
  then show ?thesis using h1 h2 h3 g r by simp
qed

text \<open>
  C2 asks that a match whose stage is absent or not canonical is treated as general, so
  that its summary reaches the general bucket and can appear under Additional Notes. The
  code does this for an absent stage only. For a stage that is present but not canonical,
  such as the stage \<open>introduction\<close> that the chunker assigns, the summary is lost: it
  does not reach the general bucket and the answer is the fallback sentence.
\<close>

theorem unknown_stage_not_general:
  "clean_text (Str ''an intro.'') = ''An intro.''
   \<and> dict_get (fst (place
        \<lparr>meta_topic = None, meta_stage = Some ''introduction'',
         meta_summary = Some (Str ''an intro.'')\<rparr>
        (init_sections, {}))) ''general'' [] = []
   \<and> get_explanation ''q'' 1
        [\<lparr>meta_topic = None, meta_stage = Some ''introduction'',
          meta_summary = Some (Str ''an intro.'')\<rparr>]
      = Inr ''q is an important electronics topic.''"
  by code_simp

section \<open>Deduplication\<close>

lemma init_sections_empty: "init_sections s = Some l \<Longrightarrow> l = []"
  by (simp add: init_sections_def STAGE_ORDER_def split: if_splits)

lemma buckets_ok_init: "buckets_ok init_sections {}"
  using init_sections_empty by (fastforce simp: buckets_ok_def)

lemma buckets_ok_append:
  assumes ok: "buckets_ok sections seen" and new: "normalize_key summary \<notin> seen"
  shows "buckets_ok (sections(stage \<mapsto> dict_get sections stage [] @ [summary]))
     (insert (normalize_key summary) seen)"
proof -
  let ?B = "dict_get sections stage []"
  let ?M = "sections(stage \<mapsto> ?B @ [summary])"
  have sub: "normalize_key ` set l \<subseteq> seen" and dist: "distinct (map normalize_key l)"
    if "sections s = Some l" for s l
    using ok that unfolding buckets_ok_def by blast+
  have disj: "normalize_key ` set l \<inter> normalize_key ` set l' = {}"
    if "s \<noteq> s'" "sections s = Some l" "sections s' = Some l'" for s s' l l'
    using ok that unfolding buckets_ok_def by blast
  have B_cases: "?B = [] \<or> sections stage = Some ?B"
    by (cases "sections stage") (simp_all add: dict_get_def)
  have B_sub: "normalize_key ` set ?B \<subseteq> seen"
    using B_cases sub [of stage ?B] by auto
  have B_dist: "distinct (map normalize_key ?B)"
    using B_cases dist [of stage ?B] by auto
  have B_other: "normalize_key ` set ?B \<inter> normalize_key ` set l = {}"
    if "s \<noteq> stage" "sections s = Some l" for s l
    using B_cases disj [of stage s ?B l] that by auto
  have new_B: "normalize_key summary \<notin> normalize_key ` set ?B"
    using B_sub new by blast
  have N_dist: "distinct (map normalize_key (?B @ [summary]))"
    using B_dist new_B by simp
  have N_sub: "normalize_key ` set (?B @ [summary]) \<subseteq> insert (normalize_key summary) seen"
    using B_sub by auto
  have N_other: "normalize_key ` set (?B @ [summary]) \<inter> normalize_key ` set l = {}"
    if "s \<noteq> stage" "sections s = Some l" for s l
  proof -
    have "normalize_key summary \<notin> normalize_key ` set l"
      using sub [OF that(2)] new by blast
    then show ?thesis using B_other [OF that] by auto
  qed
  have look: "(?M s = Some l) = (if s = stage then l = ?B @ [summary] else sections s = Some l)"
    for s l
    by auto
  show ?thesis
    unfolding buckets_ok_def look
  proof (intro conjI allI impI)
    fix s l
    assume h: "if s = stage then l = ?B @ [summary] else sections s = Some l"
    show "distinct (map normalize_key l)"
    proof (cases "s = stage")
      case True
      then show ?thesis using h N_dist by simp
    next
      case False
      then show ?thesis using h dist [of s l] by simp
    qed
    show "normalize_key ` set l \<subseteq> insert (normalize_key summary) seen"
    proof (cases "s = stage")
      case True
      then show ?thesis using h N_sub by simp
    next
      case False
      then show ?thesis using h sub [of s l] by auto
    qed
  next
    fix s s' l l'
    assume ne: "s \<noteq> s'"
      and a: "if s = stage then l = ?B @ [summary] else sections s = Some l"
      and b: "if s' = stage then l' = ?B @ [summary] else sections s' = Some l'"
    show "normalize_key ` set l \<inter> normalize_key ` set l' = {}"
    proof (cases "s = stage")
      case True
      then have "s' \<noteq> stage" "sections s' = Some l'" "l = ?B @ [summary]"
        using ne a b by auto
      then show ?thesis using N_other [of s' l'] by simp
    next
      case False
      show ?thesis
      proof (cases "s' = stage")
        case True
        then have "sections s = Some l" "l' = ?B @ [summary]"
          using False a b by auto
        then show ?thesis using N_other [of s l] False by (simp add: Int_commute)
      next
        case s': False
        then show ?thesis using disj [of s s' l l'] ne False a b by simp
      qed
    qed
  qed
qed

lemma place_buckets_ok: "buckets_ok sections seen \<Longrightarrow>
  buckets_ok (fst (place m (sections, seen))) (snd (place m (sections, seen)))"
  by (simp add: place_def Let_def buckets_ok_append)

lemma fill_sections_buckets_ok:
  "buckets_ok (fst st) (snd st) \<Longrightarrow>
   buckets_ok (fst (fill_sections metas st)) (snd (fill_sections metas st))"
proof (induction metas arbitrary: st)
  case Nil
  then show ?case by simp
next
  case (Cons m metas)
  have "buckets_ok (fst (place m st)) (snd (place m st))"
    using place_buckets_ok [of "fst st" "snd st" m] Cons.prems by simp
  then show ?case using Cons.IH by simp
qed

lemma bucket_keys:
  "buckets_ok sections seen \<Longrightarrow> distinct (map normalize_key (dict_get sections s []))"
  by (auto simp: buckets_ok_def dict_get_def split: option.splits)

lemma bucket_keys_disjoint:
  assumes "buckets_ok sections seen" and "s \<noteq> s'"
  shows "normalize_key ` set (dict_get sections s []) \<inter>
     normalize_key ` set (dict_get sections s' []) = {}"
proof (cases "sections s")
  case None
  then show ?thesis by (simp add: dict_get_def)
next
  case l: (Some l)
  show ?thesis
  proof (cases "sections s'")
    case None
    then show ?thesis by (simp add: dict_get_def)
  next
    case (Some l')
    have "normalize_key ` set l \<inter> normalize_key ` set l' = {}"
      using assms l Some unfolding buckets_ok_def by blast
    then show ?thesis using l Some by (simp add: dict_get_def)
  qed
qed

lemma buckets_distinct:
  "buckets_ok sections seen \<Longrightarrow> distinct stages \<Longrightarrow>
   distinct (map normalize_key (concat (map (\<lambda>s. dict_get sections s []) stages)))"
proof (induction stages)
  case Nil
  then show ?case by simp
next
  case (Cons s stages)
  have "normalize_key ` set (dict_get sections s []) \<inter>
      normalize_key ` set (dict_get sections s' []) = {}" if "s' \<in> set stages" for s'
    using bucket_keys_disjoint [OF Cons.prems(1), of s s'] Cons.prems(2) that by auto
  then have "normalize_key ` set (dict_get sections s []) \<inter>
      normalize_key ` (\<Union>s' \<in> set stages. set (dict_get sections s' [])) = {}"
    by blast
  then show ?case
    using Cons bucket_keys [OF Cons.prems(1), of s] by (simp add: image_UN)
qed

lemma stage_lines_prefix:
  "\<exists>k. fst (stage_lines b mw lines (para, sw, u)) = para @ take k lines"
proof (induction lines arbitrary: para sw u)
  case Nil
  then show ?case by simp
next
  case (Cons line lines)
  let ?w = "int (length (split line))"
  show ?case
  proof (cases "sw + ?w \<ge> b \<or> u + ?w \<ge> mw")
    case True
    then have "fst (stage_lines b mw (line # lines) (para, sw, u)) = para @ take 1 (line # lines)"
      by (simp add: Let_def)
    then show ?thesis by blast
  next
    case False
    obtain k where "fst (stage_lines b mw lines (para @ [line], sw + ?w, u + ?w))
        = (para @ [line]) @ take k lines"
      using Cons.IH by blast
    with False have "fst (stage_lines b mw (line # lines) (para, sw, u))
        = para @ take (Suc k) (line # lines)"
      by (simp add: Let_def)
    then show ?thesis by blast
  qed
qed

lemma emitted_Cons:
  assumes "dict_get sections s [] \<noteq> []"
    and "stage_lines (stage_budget_of mw s) mw (dict_get sections s []) ([], 0, u) = (para, sw, u')"
  shows "emitted mw sections (s # stages) u =
     (if para \<noteq> [] then [(s, para)] else [])
     @ (if u' \<ge> mw then [] else emitted mw sections stages u')"
  using assms by (simp add: Let_def)

lemma emitted_Cons_skip:
  "dict_get sections s [] = [] \<Longrightarrow> emitted mw sections (s # stages) u = emitted mw sections stages u"
  by simp

lemma emitted_lines_subset:
  "set (concat (map snd (emitted mw sections stages u)))
     \<subseteq> (\<Union>s \<in> set stages. set (dict_get sections s []))"
proof (induction stages arbitrary: u)
  case Nil
  then show ?case by simp
next
  case (Cons s stages)
  show ?case
  proof (cases "dict_get sections s [] = []")
    case True
    show ?thesis
      unfolding emitted_Cons_skip [OF True] using Cons.IH [of u] by auto
  next
    case False
    obtain para sw u' where sl:
      "stage_lines (stage_budget_of mw s) mw (dict_get sections s []) ([], 0, u) = (para, sw, u')"
      using prod_cases3 by blast
    obtain k where k: "para = take k (dict_get sections s [])"
      using stage_lines_prefix [of "stage_budget_of mw s" mw "dict_get sections s []" "[]" 0 u] sl
      by auto
    have para: "set para \<subseteq> set (dict_get sections s [])"
      unfolding k by (rule set_take_subset)
    show ?thesis
      unfolding emitted_Cons [OF False sl] using Cons.IH [of u'] para by auto
  qed
qed

lemma emitted_distinct:
  assumes ok: "buckets_ok sections seen"
  shows "distinct stages \<Longrightarrow>
     distinct (map normalize_key (concat (map snd (emitted mw sections stages u))))"
proof (induction stages arbitrary: u)
  case Nil
  then show ?case by simp
next
  case (Cons s stages)
  have ds: "distinct stages" and notin: "s \<notin> set stages"
    using Cons.prems by simp_all
  show ?case
  proof (cases "dict_get sections s [] = []")
    case True
    show ?thesis
      unfolding emitted_Cons_skip [OF True] using Cons.IH [OF ds] .
  next
    case False
    obtain para sw u' where sl:
      "stage_lines (stage_budget_of mw s) mw (dict_get sections s []) ([], 0, u) = (para, sw, u')"
      using prod_cases3 by blast
    obtain k where k: "para = take k (dict_get sections s [])"
      using stage_lines_prefix [of "stage_budget_of mw s" mw "dict_get sections s []" "[]" 0 u] sl
      by auto
    have para_sub: "set para \<subseteq> set (dict_get sections s [])"
      unfolding k by (rule set_take_subset)
    have para_dist: "distinct (map normalize_key para)"
      unfolding k take_map [symmetric]
      using bucket_keys [OF ok, of s] by (rule distinct_take)
    let ?rest = "concat (map snd (emitted mw sections stages u'))"
    have rest_dist: "distinct (map normalize_key ?rest)"
      using Cons.IH [OF ds] .
    have rest_sub: "set ?rest \<subseteq> (\<Union>s' \<in> set stages. set (dict_get sections s' []))"
      by (rule emitted_lines_subset)
    have disj: "normalize_key ` set para \<inter> normalize_key ` set ?rest = {}"
    proof (rule ccontr)
      assume "normalize_key ` set para \<inter> normalize_key ` set ?rest \<noteq> {}"
      then obtain x y where x: "x \<in> set para" and y: "y \<in> set ?rest"
        and eq: "normalize_key x = normalize_key y"
        by auto
      from y rest_sub obtain s' where s': "s' \<in> set stages" and ys: "y \<in> set (dict_get sections s' [])"
        by auto
      have "s \<noteq> s'" using s' notin by auto
      from bucket_keys_disjoint [OF ok this] x para_sub ys eq show False
        by auto
    qed
    have both: "distinct (map normalize_key (para @ ?rest))"
      using para_dist rest_dist disj by simp
    show ?thesis
    proof (cases "u' \<ge> mw")
      case True
      then show ?thesis
        unfolding emitted_Cons [OF False sl] using para_dist by simp
    next
      case False
      then show ?thesis
        unfolding emitted_Cons [OF \<open>dict_get sections s [] \<noteq> []\<close> sl] using both para_dist rest_dist
        by simp
    qed
  qed
qed

lemma stage_order_distinct: "distinct STAGE_ORDER"
  by (simp add: STAGE_ORDER_def)

text \<open>
  C4 (as amended). The returned text is the rendering of the emitted sections, and over
  all these sections no two emitted lines have the same dedup key, so of the summaries
  that share a key at most one is emitted as a line. The same holds of the buckets
  themselves, taken together for any stage names, canonical or not: deduplication is
  across buckets.
\<close>

theorem dedup_is_global:
  "get_explanation query t metas = Inr (render query (emitted_sections t metas))
   \<and> distinct (map normalize_key (concat (map snd (emitted_sections t metas))))
   \<and> distinct (map normalize_key (concat (map
        (\<lambda>s. dict_get (fst (fill_sections metas (init_sections, {}))) s [])
        (remdups stages))))"
proof -
  let ?st = "fill_sections metas (init_sections, {})"
  have ok: "buckets_ok (fst ?st) (snd ?st)"
    using fill_sections_buckets_ok [of "(init_sections, {})" metas] buckets_ok_init by simp
  have "distinct (map normalize_key (concat (map snd (emitted_sections t metas))))"
    using emitted_distinct [OF ok stage_order_distinct] by (simp add: emitted_sections_def)
  moreover have "distinct (map normalize_key (concat (map
        (\<lambda>s. dict_get (fst ?st) s []) (remdups stages))))"
    using buckets_distinct [OF ok, of "remdups stages"] by simp
  ultimately show ?thesis
    using get_explanation_render [of query t metas] by simp
qed

text \<open>
  C4 as stated fails when the claim is read on the returned text: a cleaned summary can
  occur again inside a longer line. Two matches carry the summary \<open>Zener diode\<close> (one of
  them is dropped as a duplicate) and a third, of stage working, carries a longer summary
  that starts with the same words; the returned text holds \<open>Zener diode\<close> twice.
\<close>

theorem dedup_text_occurs_twice:
  "clean_text (Str ''Zener diode'') = ''Zener diode''
   \<and> clean_text (Str ''zener  diode'') = ''Zener diode''
   \<and> get_explanation ''q'' 1
       [\<lparr>meta_topic = None, meta_stage = Some ''definition'',
         meta_summary = Some (Str ''Zener diode'')\<rparr>,
        \<lparr>meta_topic = None, meta_stage = Some ''types'',
         meta_summary = Some (Str ''zener  diode'')\<rparr>,
        \<lparr>meta_topic = None, meta_stage = Some ''working'',
         meta_summary = Some (Str ''Zener diode regulates voltage'')\<rparr>]
     = Inr (''Definition:'' @ [CHR 0x0A, CHR 0x0A] @ ''Zener diode''
            @ [CHR 0x0A, CHR 0x0A, CHR 0x0A]
            @ ''Working Principle:'' @ [CHR 0x0A, CHR 0x0A] @ ''Zener diode regulates voltage'')
   \<and> length (filter (prefix ''Zener diode'')
        (suffixes (''Definition:'' @ [CHR 0x0A, CHR 0x0A] @ ''Zener diode''
            @ [CHR 0x0A, CHR 0x0A, CHR 0x0A]
            @ ''Working Principle:'' @ [CHR 0x0A, CHR 0x0A] @ ''Zener diode regulates voltage''))) = 2"
  by code_simp

section \<open>Counting the words of the output\<close>

lemma split_from_space:
  "isspace c \<Longrightarrow> split_from (a @ c # b) w = split_from a w @ split_from b []"
  by (induction a arbitrary: w) simp_all

lemma split_append_space: "isspace c \<Longrightarrow> split (a @ c # b) = split a @ split b"
  by (simp add: split_def split_from_space)

lemma split_from_spaces_only:
  "\<forall>c \<in> set ws. isspace c \<Longrightarrow> split_from ws w = (if w = [] then [] else [w])"
  by (induction ws arbitrary: w) simp_all

lemma split_from_trailing:
  "\<forall>c \<in> set ws. isspace c \<Longrightarrow> split_from (a @ ws) w = split_from a w"
  by (induction a arbitrary: w) (simp_all add: split_from_spaces_only)

lemma split_dropWhile: "split (dropWhile isspace s) = split s"
  by (induction s) (simp_all add: split_def)

lemma split_strip: "split (strip s) = split s"
proof -
  let ?t = "dropWhile isspace s"
  let ?a = "rev (dropWhile isspace (rev ?t))"
  let ?ws = "rev (takeWhile isspace (rev ?t))"
  have "?t = ?a @ ?ws"
    by (metis rev_append rev_rev_ident takeWhile_dropWhile_id)
  moreover have "\<forall>c \<in> set ?ws. isspace c"
    by (auto dest: set_takeWhileD)
  ultimately have "split_from ?t [] = split_from ?a []"
    using split_from_trailing [of ?ws ?a "[]"] by simp
  then have "split ?a = split ?t"
    by (simp add: split_def)
  then show ?thesis
    by (simp add: strip_def split_dropWhile)
qed

lemma split_join:
  "isspace c \<Longrightarrow> split (join [c] xs) = concat (map split xs)"
  by (induction "[c]" xs rule: join.induct) (simp_all add: split_from_space split_def)

lemma isspace_newline: "isspace (CHR 0x0A)"
  by (simp add: isspace_def)

lemma isspace_blank: "isspace CHR '' ''"
  by (simp add: isspace_def)

lemma split_trailing_newline: "split (a @ [CHR 0x0A]) = split a"
  using split_from_trailing [of "[CHR 0x0A]" a "[]"] isspace_newline by (simp add: split_def)

lemma split_leading_newline: "split (CHR 0x0A # a) = split a"
  using isspace_newline by (simp add: split_def)

lemma split_render_section:
  "concat (map split (render_section sec))
     = split (dict_get STAGE_TITLES (fst sec) [] @ '':'') @ concat (map split (snd sec))"
proof -
  have "split ([CHR 0x0A] @ dict_get STAGE_TITLES (fst sec) [] @ '':'' @ [CHR 0x0A])
      = split (dict_get STAGE_TITLES (fst sec) [] @ '':'')"
    using split_trailing_newline [of "dict_get STAGE_TITLES (fst sec) [] @ '':''"]
      split_leading_newline [of "dict_get STAGE_TITLES (fst sec) [] @ '':'' @ [CHR 0x0A]"]
    by simp
  moreover have "split (join '' '' (snd sec) @ [CHR 0x0A]) = concat (map split (snd sec))"
    using split_trailing_newline [of "join '' '' (snd sec)"] split_join [OF isspace_blank]
    by simp
  ultimately show ?thesis
    by (simp add: render_section_def)
qed

lemma line_words_append: "line_words (xs @ ys) = line_words xs + line_words ys"
  by (simp add: line_words_def)

lemma line_words_length: "int (length (concat (map split lines))) = line_words lines"
  by (induction lines) (simp_all add: line_words_def)

lemma split_render_sections:
  "int (length (concat (map split (concat (map render_section secs)))))
     = int (sum_list (map (header_words \<circ> fst) secs)) + body_words secs"
proof (induction secs)
  case Nil
  then show ?case by (simp add: body_words_def line_words_def)
next
  case (Cons sec secs)
  have "int (length (concat (map split (render_section sec))))
      = int (header_words (fst sec)) + line_words (snd sec)"
    unfolding split_render_section by (simp add: header_words_def line_words_length)
  then show ?case
    using Cons by (simp add: body_words_def line_words_append)
qed

lemma render_words:
  "secs \<noteq> [] \<Longrightarrow>
   int (length (split (render query secs)))
     = int (sum_list (map (header_words \<circ> fst) secs)) + body_words secs"
  using split_render_sections [of secs] split_join [OF isspace_newline]
  by (simp add: render_def split_strip)

lemma header_words_total: "sum_list (map header_words STAGE_ORDER) = 14"
  by code_simp

lemma subseq_sum_le:
  "subseq xs ys \<Longrightarrow> sum_list (map f xs) \<le> (sum_list (map f ys) :: nat)"
  by (induction rule: list_emb.induct) simp_all

lemma header_words_bound:
  "subseq (map fst secs) STAGE_ORDER \<Longrightarrow> sum_list (map (header_words \<circ> fst) secs) \<le> 14"
  using subseq_sum_le [of "map fst secs" STAGE_ORDER header_words] header_words_total
  by (simp add: comp_def)

section \<open>The word budget\<close>

lemma stage_lines_words:
  "lines \<noteq> [] \<Longrightarrow> u < mw \<Longrightarrow>
   stage_lines b mw lines (para, sw, u) = (para', sw', u') \<Longrightarrow>
   \<exists>new. new \<noteq> [] \<and> para' = para @ new \<and> u' = u + line_words new
     \<and> u' - int (length (split (last new))) < mw"
proof (induction lines arbitrary: para sw u)
  case Nil
  then show ?case by simp
next
  case (Cons line lines)
  let ?w = "int (length (split line))"
  have one: "line_words [line] = ?w"
    by (simp add: line_words_def)
  show ?case
  proof (cases "sw + ?w \<ge> b \<or> u + ?w \<ge> mw \<or> lines = []")
    case True
    then have "stage_lines b mw (line # lines) (para, sw, u) = (para @ [line], sw + ?w, u + ?w)"
      by (auto simp: Let_def)
    then have "para' = para @ [line]" "u' = u + ?w"
      using Cons.prems(3) by simp_all
    then have "[line] \<noteq> [] \<and> para' = para @ [line] \<and> u' = u + line_words [line]
        \<and> u' - int (length (split (last [line]))) < mw"
      using Cons.prems(2) one by simp
    then show ?thesis by blast
  next
    case False
    then have rec: "stage_lines b mw lines (para @ [line], sw + ?w, u + ?w) = (para', sw', u')"
      using Cons.prems(3) by (simp add: Let_def)
    from False have "lines \<noteq> []" "u + ?w < mw" by auto
    from Cons.IH [OF this rec]
    obtain new where new: "new \<noteq> []" "para' = (para @ [line]) @ new"
      "u' = u + ?w + line_words new" "u' - int (length (split (last new))) < mw"
      by blast
    have "line # new \<noteq> [] \<and> para' = para @ line # new \<and> u' = u + line_words (line # new)
        \<and> u' - int (length (split (last (line # new)))) < mw"
      using new by (simp add: line_words_def)
    then show ?thesis by blast
  qed
qed

lemma emitted_words:
  "u < mw \<Longrightarrow> emitted mw sections stages u \<noteq> [] \<Longrightarrow>
   u + body_words (emitted mw sections stages u)
     - int (length (split (last (snd (last (emitted mw sections stages u)))))) < mw"
proof (induction stages arbitrary: u)
  case Nil
  then show ?case by simp
next
  case (Cons s stages)
  show ?case
  proof (cases "dict_get sections s [] = []")
    case True
    show ?thesis
      using Cons.IH [OF Cons.prems(1)] Cons.prems(2) unfolding emitted_Cons_skip [OF True] .
  next
    case False
    obtain para sw u' where sl:
      "stage_lines (stage_budget_of mw s) mw (dict_get sections s []) ([], 0, u) = (para, sw, u')"
      using prod_cases3 by blast
    from stage_lines_words [OF False Cons.prems(1) sl]
    have para: "para \<noteq> []" "u' = u + line_words para"
      "u' - int (length (split (last para))) < mw"
      by auto
    let ?rest = "if u' \<ge> mw then [] else emitted mw sections stages u'"
    have E: "emitted mw sections (s # stages) u = (s, para) # ?rest"
      unfolding emitted_Cons [OF False sl] using para(1) by simp
    show ?thesis
    proof (cases "?rest = []")
      case True
      then have "emitted mw sections (s # stages) u = [(s, para)]"
        using E by simp
      then show ?thesis
        using para by (simp add: body_words_def)
    next
      case nonempty: False
      then have small: "u' < mw" and rest: "?rest = emitted mw sections stages u'"
        by (auto split: if_splits)
      have "u' + body_words ?rest - int (length (split (last (snd (last ?rest))))) < mw"
        using Cons.IH [OF small] nonempty rest by simp
      moreover have "body_words ((s, para) # ?rest) = line_words para + body_words ?rest"
        by (simp add: body_words_def line_words_append)
      moreover have "last ((s, para) # ?rest) = last ?rest"
        using nonempty by simp
      ultimately show ?thesis
        unfolding E using para(2) by simp
    qed
  qed
qed

text \<open>
  C3 (as amended). For a positive time, when at least one section is emitted, the words
  of the emitted summary lines stay below \<open>time_minutes * 120\<close> plus the length of the
  last line emitted, and the returned text, which also holds the section headers, has
  at most 14 words more.
\<close>

theorem word_budget:
  assumes "0 < t" and "emitted_sections t metas \<noteq> []"
  shows "get_explanation query t metas = Inr (render query (emitted_sections t metas))
     \<and> body_words (emitted_sections t metas)
         < t * 120 + int (length (split (last (snd (last (emitted_sections t metas))))))
     \<and> int (length (split (render query (emitted_sections t metas))))
         \<le> t * 120 + int (length (split (last (snd (last (emitted_sections t metas)))))) + 14"
proof -
  let ?E = "emitted_sections t metas"
  let ?L = "int (length (split (last (snd (last ?E)))))"
  have pos: "(0::int) < t * WORDS_PER_MIN"
    using assms(1) by (simp add: WORDS_PER_MIN_def)
  have "0 + body_words ?E - ?L < t * WORDS_PER_MIN"
    using emitted_words [OF pos, of "fst (fill_sections metas (init_sections, {}))" STAGE_ORDER]
      assms(2) by (simp add: emitted_sections_def)
  then have body: "body_words ?E < t * 120 + ?L"
    by (simp add: WORDS_PER_MIN_def)
  have "subseq (map fst ?E) STAGE_ORDER"
    using emitted_stages_subseq [of "t * WORDS_PER_MIN"
        "fst (fill_sections metas (init_sections, {}))" STAGE_ORDER 0]
    by (simp add: emitted_sections_def)
  then have "sum_list (map (header_words \<circ> fst) ?E) \<le> 14"
    by (rule header_words_bound)
  then have "int (length (split (render query ?E))) \<le> 14 + body_words ?E"
    using render_words [OF assms(2), of query] by simp
  then have "int (length (split (render query ?E))) \<le> t * 120 + ?L + 14"
    using body by simp
  then show ?thesis
    using body get_explanation_render [of query t metas] by simp
qed



theorem word_budget_witness:
  "(0::int) < 1
   \<and> emitted_sections 1
        [\<lparr>meta_topic = None, meta_stage = Some ''working'',
          meta_summary = Some (Str ''the bjt amplifies current'')\<rparr>]
       = [(''working'', [''The bjt amplifies current''])]
   \<and> get_explanation ''bjt'' 1
        [\<lparr>meta_topic = None, meta_stage = Some ''working'',
          meta_summary = Some (Str ''the bjt amplifies current'')\<rparr>]
       = Inr (''Working Principle:'' @ [CHR 0x0A, CHR 0x0A] @ ''The bjt amplifies current'')
   \<and> int (length (split (''Working Principle:'' @ [CHR 0x0A, CHR 0x0A]
          @ ''The bjt amplifies current'')))
       \<le> 1 * 120 + int (length (split ''The bjt amplifies current'')) + 14"
proof -
  let ?ms = "[\<lparr>meta_topic = None, meta_stage = Some ''working'',
          meta_summary = Some (Str ''the bjt amplifies current'')\<rparr>]"
  have h1: "(0::int) < 1" by simp
  have e: "emitted_sections 1 ?ms = [(''working'', [''The bjt amplifies current''])]"
    by code_simp
  then have h2: "emitted_sections 1 ?ms \<noteq> []" by simp
  have r: "render ''bjt'' [(''working'', [''The bjt amplifies current''])]
      = ''Working Principle:'' @ [CHR 0x0A, CHR 0x0A] @ ''The bjt amplifies current''"
    by code_simp
  show ?thesis
    using word_budget [OF h1 h2, of "''bjt''"] e r by simp
qed

text \<open>
  C3 as stated fails, because the returned text also holds the section headers. With one
  minute and nine matches, one for each stage and each with a summary of 14 words, every
  section is emitted (the total reaches the limit of 120 only with the ninth line): the
  text has 126 + 14 = 140 words, more than 120 plus the 14 words of a line.
\<close>

theorem word_budget_exceeded:
  "get_explanation ''q'' 1
     [\<lparr>meta_topic = None, meta_stage = Some ''definition'',
       meta_summary = Some (Str ''a a a a a a a a a a a a a a'')\<rparr>,
      \<lparr>meta_topic = None, meta_stage = Some ''types'',
       meta_summary = Some (Str ''b b b b b b b b b b b b b b'')\<rparr>,
      \<lparr>meta_topic = None, meta_stage = Some ''construction'',
       meta_summary = Some (Str ''c c c c c c c c c c c c c c'')\<rparr>,
      \<lparr>meta_topic = None, meta_stage = Some ''working'',
       meta_summary = Some (Str ''d d d d d d d d d d d d d d'')\<rparr>,
      \<lparr>meta_topic = None, meta_stage = Some ''formulas'',
       meta_summary = Some (Str ''e e e e e e e e e e e e e e'')\<rparr>,
      \<lparr>meta_topic = None, meta_stage = Some ''applications'',
       meta_summary = Some (Str ''f f f f f f f f f f f f f f'')\<rparr>,
      \<lparr>meta_topic = None, meta_stage = Some ''advantages'',
       meta_summary = Some (Str ''g g g g g g g g g g g g g g'')\<rparr>,
      \<lparr>meta_topic = None, meta_stage = Some ''disadvantages'',
       meta_summary = Some (Str ''h h h h h h h h h h h h h h'')\<rparr>,
      \<lparr>meta_topic = None, meta_stage = Some ''general'',
       meta_summary = Some (Str ''i i i i i i i i i i i i i i'')\<rparr>]
   = Inr (''Definition:'' @ [CHR 0x0A, CHR 0x0A] @ ''A a a a a a a a a a a a a a''
          @ [CHR 0x0A, CHR 0x0A, CHR 0x0A] @ ''Types:'' @ [CHR 0x0A, CHR 0x0A] @ ''B b b b b b b b b b b b b b''
          @ [CHR 0x0A, CHR 0x0A, CHR 0x0A] @ ''Construction / Structure:'' @ [CHR 0x0A, CHR 0x0A] @ ''C c c c c c c c c c c c c c''
          @ [CHR 0x0A, CHR 0x0A, CHR 0x0A] @ ''Working Principle:'' @ [CHR 0x0A, CHR 0x0A] @ ''D d d d d d d d d d d d d d''
          @ [CHR 0x0A, CHR 0x0A, CHR 0x0A] @ ''Key Formulas:'' @ [CHR 0x0A, CHR 0x0A] @ ''E e e e e e e e e e e e e e''
          @ [CHR 0x0A, CHR 0x0A, CHR 0x0A] @ ''Applications:'' @ [CHR 0x0A, CHR 0x0A] @ ''F f f f f f f f f f f f f f''
          @ [CHR 0x0A, CHR 0x0A, CHR 0x0A] @ ''Advantages:'' @ [CHR 0x0A, CHR 0x0A] @ ''G g g g g g g g g g g g g g''
          @ [CHR 0x0A, CHR 0x0A, CHR 0x0A] @ ''Limitations:'' @ [CHR 0x0A, CHR 0x0A] @ ''H h h h h h h h h h h h h h''
          @ [CHR 0x0A, CHR 0x0A, CHR 0x0A] @ ''Additional Notes:'' @ [CHR 0x0A, CHR 0x0A] @ ''I i i i i i i i i i i i i i'')
   \<and> length (split
         (''Definition:'' @ [CHR 0x0A, CHR 0x0A] @ ''A a a a a a a a a a a a a a''
          @ [CHR 0x0A, CHR 0x0A, CHR 0x0A] @ ''Types:'' @ [CHR 0x0A, CHR 0x0A] @ ''B b b b b b b b b b b b b b''
          @ [CHR 0x0A, CHR 0x0A, CHR 0x0A] @ ''Construction / Structure:'' @ [CHR 0x0A, CHR 0x0A] @ ''C c c c c c c c c c c c c c''
          @ [CHR 0x0A, CHR 0x0A, CHR 0x0A] @ ''Working Principle:'' @ [CHR 0x0A, CHR 0x0A] @ ''D d d d d d d d d d d d d d''
          @ [CHR 0x0A, CHR 0x0A, CHR 0x0A] @ ''Key Formulas:'' @ [CHR 0x0A, CHR 0x0A] @ ''E e e e e e e e e e e e e e''
          @ [CHR 0x0A, CHR 0x0A, CHR 0x0A] @ ''Applications:'' @ [CHR 0x0A, CHR 0x0A] @ ''F f f f f f f f f f f f f f''
          @ [CHR 0x0A, CHR 0x0A, CHR 0x0A] @ ''Advantages:'' @ [CHR 0x0A, CHR 0x0A] @ ''G g g g g g g g g g g g g g''
          @ [CHR 0x0A, CHR 0x0A, CHR 0x0A] @ ''Limitations:'' @ [CHR 0x0A, CHR 0x0A] @ ''H h h h h h h h h h h h h h''
          @ [CHR 0x0A, CHR 0x0A, CHR 0x0A] @ ''Additional Notes:'' @ [CHR 0x0A, CHR 0x0A] @ ''I i i i i i i i i i i i i i'')) = 140
   \<and> map (length \<circ> split)
       [''A a a a a a a a a a a a a a'',
        ''B b b b b b b b b b b b b b'',
        ''C c c c c c c c c c c c c c'',
        ''D d d d d d d d d d d d d d'',
        ''E e e e e e e e e e e e e e'',
        ''F f f f f f f f f f f f f f'',
        ''G g g g g g g g g g g g g g'',
        ''H h h h h h h h h h h h h h'',
        ''I i i i i i i i i i i i i i''] = [14, 14, 14, 14, 14, 14, 14, 14, 14]
   \<and> \<not> ((140::nat) \<le> 1 * 120 + 14)"
  by code_simp

end
